theory Spec2Isabelle
  imports Complex_Main
begin

section \<open>Constants and character helpers\<close>

text \<open>
  The solver works on C strings of upper-case ASCII letters. A C string is modelled as
  a \<open>string\<close> (the characters before the terminating NUL); a \<open>char[26]\<close> count table
  is an \<open>int list\<close> of length 26 indexed by \<open>c - 'A'\<close>. For a character outside
  \<open>'A'..'Z'\<close> the C code indexes outside the table, which is undefined behaviour; the
  model says nothing useful there and every theorem below assumes upper-case words.
  A finite \<open>double\<close> is the real number it denotes; the one arithmetic operation on
  doubles modelled here, the subtraction in \<open>determine_final_pick\<close>, rounds its exact
  result to the nearest double.
\<close>

definition WORD_SIZE :: nat where
  "WORD_SIZE = 5"

definition LOW_POSSIBLE_ANSWER_COUNT :: nat where
  "LOW_POSSIBLE_ANSWER_COUNT = 25"

definition ENTROPY_RANK_THRESHOLD :: real where
  "ENTROPY_RANK_THRESHOLD = 0.50"

definition NONE :: string where
  "NONE = ''NONE''"

definition is_upper :: "char \<Rightarrow> bool" where
  "is_upper c \<longleftrightarrow> 65 \<le> (of_char c :: nat) \<and> (of_char c :: nat) \<le> 90"


text \<open>\<open>toupper\<close> of the C locale.\<close>

definition toupper :: "char \<Rightarrow> char" where
  "toupper c =
     (if 97 \<le> (of_char c :: nat) \<and> (of_char c :: nat) \<le> 122
      then char_of ((of_char c :: nat) - 32) else c)"

text \<open>The table index \<open>c - 'A'\<close>.\<close>

definition letter_index :: "char \<Rightarrow> nat" where
  "letter_index c = nat (int (of_char c :: nat) - 65)"

text \<open>The character \<open>'A' + i\<close>.\<close>

definition letter_of :: "nat \<Rightarrow> char" where
  "letter_of i = char_of (65 + i)"

text \<open>\<open>table[c - 'A']++\<close> and \<open>table[c - 'A']--\<close>.\<close>

definition table_incr :: "int list \<Rightarrow> char \<Rightarrow> int list" where
  "table_incr t c = t[letter_index c := t ! letter_index c + 1]"

definition table_decr :: "int list \<Rightarrow> char \<Rightarrow> int list" where
  "table_decr t c = t[letter_index c := t ! letter_index c - 1]"

text \<open>\<open>strchr(s, c) != NULL\<close>: the terminating NUL counts as part of the string.\<close>

definition strchr_found :: "string \<Rightarrow> char \<Rightarrow> bool" where
  "strchr_found s c \<longleftrightarrow> c \<in> set s \<or> c = CHR 0x00"

text \<open>The counting loop \<open>for (k = 0; k < strlen(s); k++) if (s[k] == c) n++\<close>.\<close>

primrec count_char :: "string \<Rightarrow> char \<Rightarrow> int" where
  "count_char [] c = 0"
| "count_char (x # xs) c = (if x = c then 1 else 0) + count_char xs c"

section \<open>Feedback pattern evaluator\<close>

text \<open>
  \<open>get_feedback_pattern\<close>: the two loops over \<open>i = 0 .. WORD_SIZE - 1\<close>, each a fold
  over the indices with the pair (result_pattern, answer_char_counts) as state. The
  array \<open>guess_used\<close> of the source is written but never read and is left out.
\<close>

definition green_step :: "string \<Rightarrow> string \<Rightarrow> nat \<Rightarrow> string \<times> int list \<Rightarrow> string \<times> int list" where
  "green_step guess answer i s =
     (case s of (result_pattern, answer_char_counts) \<Rightarrow>
        if guess ! i = answer ! i
        then (result_pattern[i := CHR ''G''], answer_char_counts)
        else (result_pattern, table_incr answer_char_counts (answer ! i)))"

definition yellow_step :: "string \<Rightarrow> nat \<Rightarrow> string \<times> int list \<Rightarrow> string \<times> int list" where
  "yellow_step guess i s =
     (case s of (result_pattern, answer_char_counts) \<Rightarrow>
        if result_pattern ! i \<noteq> CHR ''G''
        then (if answer_char_counts ! letter_index (guess ! i) > 0
              then (result_pattern[i := CHR ''Y''], table_decr answer_char_counts (guess ! i))
              else (result_pattern, answer_char_counts))
        else (result_pattern, answer_char_counts))"

definition get_feedback_pattern :: "string \<Rightarrow> string \<Rightarrow> string" where
  "get_feedback_pattern guess answer =
     fst (fold (yellow_step guess) [0..<WORD_SIZE]
            (fold (green_step guess answer) [0..<WORD_SIZE]
               (replicate WORD_SIZE (CHR ''B''), replicate 26 0)))"

section \<open>Constraint state and its update\<close>

text \<open>
  The four buffers that \<open>main\<close> threads through the game and hands to the functions
  as \<open>pMask\<close>, \<open>notMask\<close>, \<open>pGood\<close> and \<open>pBad\<close>: the green mask, the positional
  exclusions (6 rows of 5 characters), the required letters and the excluded letters.
  \<open>main\<close> gives the required letters a buffer of 6 bytes and the excluded letters one
  of 26, and the appends of the source are unchecked. The model's strings are unbounded:
  it describes the code only as long as the required letters number at most 5 and the
  excluded letters at most 25 (\<open>fits_buffers\<close> below); beyond that the C code writes
  past a buffer, which is undefined behaviour and is not modelled.
  The guess is upper-cased character by character with \<open>toupper\<close>, as in the source.
\<close>

record constraint_state =
  gs_mask :: string
  gs_notMask :: "string list"
  gs_good :: string
  gs_bad :: string

definition initial_state :: constraint_state where
  "initial_state =
     \<lparr>gs_mask = replicate WORD_SIZE (CHR ''*''),
      gs_notMask = replicate 6 (replicate WORD_SIZE (CHR ''*'')),
      gs_good = [], gs_bad = []\<rparr>"

definition confirmed_step :: "string \<Rightarrow> string \<Rightarrow> nat \<Rightarrow> int list \<Rightarrow> int list" where
  "confirmed_step guess result_pattern idx confirmed_counts =
     (let current_char = toupper (guess ! idx) in
      if result_pattern ! idx = CHR ''G'' \<or> result_pattern ! idx = CHR ''Y''
      then table_incr confirmed_counts current_char
      else confirmed_counts)"

definition update_step ::
  "string \<Rightarrow> string \<Rightarrow> nat \<Rightarrow> int list \<Rightarrow> nat \<Rightarrow> constraint_state \<Rightarrow> constraint_state" where
  "update_step guess result_pattern tryIdx confirmed_counts idx st =
     (let current_char = toupper (guess ! idx);
          current_required_count = count_char (gs_good st) current_char
      in
      if result_pattern ! idx = CHR ''G'' then
        (let st1 = st\<lparr>gs_mask := (gs_mask st)[idx := current_char]\<rparr> in
         if current_required_count < confirmed_counts ! letter_index current_char
         then st1\<lparr>gs_good := gs_good st1 @ [current_char]\<rparr>
         else st1)
      else if result_pattern ! idx = CHR ''Y'' then
        (let st1 = st\<lparr>gs_notMask :=
                      (gs_notMask st)[tryIdx - 1 := (gs_notMask st ! (tryIdx - 1))[idx := current_char]]\<rparr> in
         if current_required_count < confirmed_counts ! letter_index current_char
         then st1\<lparr>gs_good := gs_good st1 @ [current_char]\<rparr>
         else st1)
      else if result_pattern ! idx = CHR ''B'' then
        (let st1 = st\<lparr>gs_notMask :=
                      (gs_notMask st)[tryIdx - 1 := (gs_notMask st ! (tryIdx - 1))[idx := current_char]]\<rparr> in
         if current_required_count = 0
         then (if \<not> strchr_found (gs_bad st1) current_char
               then st1\<lparr>gs_bad := gs_bad st1 @ [current_char]\<rparr>
               else st1)
         else st1)
      else st)"

definition update_game_constraints ::
  "string \<Rightarrow> string \<Rightarrow> constraint_state \<Rightarrow> nat \<Rightarrow> constraint_state" where
  "update_game_constraints guess result_pattern st tryIdx =
     (let confirmed_counts =
            fold (confirmed_step guess result_pattern) [0..<WORD_SIZE] (replicate 26 0)
      in fold (update_step guess result_pattern tryIdx confirmed_counts) [0..<WORD_SIZE] st)"

section \<open>Candidate filter\<close>

text \<open>The tally loop \<open>for (p = s; *p != '\0'; p++) table[*p - 'A']++\<close>.\<close>

definition tally_letters :: "string \<Rightarrow> int list" where
  "tally_letters s = fold (\<lambda>c table. table_incr table c) s (replicate 26 0)"

text \<open>The inner loop of \<open>is_good_fit\<close> counting a letter in the five slots of the word.\<close>

definition word_count :: "string \<Rightarrow> char \<Rightarrow> int" where
  "word_count pWord required_char =
     fold (\<lambda>wordIdx n. if pWord ! wordIdx = required_char then n + 1 else n) [0..<WORD_SIZE] 0"

text \<open>
  The loops of \<open>is_good_fit\<close> leave the function with \<open>return 0\<close>; each loop is a
  recursion over its indices that yields \<open>False\<close> at the first such return.
\<close>

fun required_loop :: "int list \<Rightarrow> string \<Rightarrow> nat list \<Rightarrow> bool" where
  "required_loop required_counts pWord [] = True"
| "required_loop required_counts pWord (i # rest) =
     (if required_counts ! i > 0 \<and> word_count pWord (letter_of i) < required_counts ! i
      then False
      else required_loop required_counts pWord rest)"

fun notmask_loop :: "string list \<Rightarrow> nat \<Rightarrow> char \<Rightarrow> nat list \<Rightarrow> bool" where
  "notmask_loop notMask idx theChar [] = True"
| "notmask_loop notMask idx theChar (notIdx # rest) =
     (if notMask ! notIdx ! idx = theChar then False
      else notmask_loop notMask idx theChar rest)"

fun position_loop :: "string \<Rightarrow> string list \<Rightarrow> string \<Rightarrow> string \<Rightarrow> nat list \<Rightarrow> bool" where
  "position_loop pMask notMask pBad pWord [] = True"
| "position_loop pMask notMask pBad pWord (idx # rest) =
     (let theChar = pWord ! idx in
      if strchr_found pBad theChar then False
      else if pMask ! idx \<noteq> CHR ''*'' \<and> pMask ! idx \<noteq> theChar then False
      else if \<not> notmask_loop notMask idx theChar [0..<6] then False
      else position_loop pMask notMask pBad pWord rest)"

definition is_good_fit :: "string \<Rightarrow> string list \<Rightarrow> string \<Rightarrow> string \<Rightarrow> string \<Rightarrow> int" where
  "is_good_fit pMask notMask pGood pBad pWord =
     (let required_counts = tally_letters pGood in
      if \<not> required_loop required_counts pWord [0..<26] then 0
      else if \<not> position_loop pMask notMask pBad pWord [0..<WORD_SIZE] then 0
      else 1)"

text \<open>
  \<open>filter_possible_answers\<close> compacts the array in place and returns the new count; the
  model returns the array together with the count (the parameter \<open>numTries\<close> is unused in
  the source). The surviving candidates are the first \<open>numNewAnswers\<close> entries.
\<close>

definition filter_step ::
  "string \<Rightarrow> string list \<Rightarrow> string \<Rightarrow> string \<Rightarrow> nat \<Rightarrow> string list \<times> nat \<Rightarrow> string list \<times> nat" where
  "filter_step pMask notMask pGood pBad i s =
     (case s of (pPossibleAnswers, numNewAnswers) \<Rightarrow>
        (let pWord = pPossibleAnswers ! i in
         if is_good_fit pMask notMask pGood pBad pWord \<noteq> 0
         then (pPossibleAnswers[numNewAnswers := pWord], numNewAnswers + 1)
         else (pPossibleAnswers, numNewAnswers)))"

definition filter_possible_answers ::
  "string list \<Rightarrow> nat \<Rightarrow> string \<Rightarrow> string list \<Rightarrow> string \<Rightarrow> string \<Rightarrow> string list \<times> nat" where
  "filter_possible_answers pPossibleAnswers numCurrentAnswers pMask notMask pGood pBad =
     fold (filter_step pMask notMask pGood pBad) [0..<numCurrentAnswers] (pPossibleAnswers, 0)"

definition surviving :: "string list \<times> nat \<Rightarrow> string list" where
  "surviving r = take (snd r) (fst r)"

section \<open>Risk assessor\<close>

fun risky_loop :: "int list \<Rightarrow> int list \<Rightarrow> nat list \<Rightarrow> bool" where
  "risky_loop guess_counts required_counts [] = False"
| "risky_loop guess_counts required_counts (i # rest) =
     (if guess_counts ! i > 1 \<and> guess_counts ! i > required_counts ! i then True
      else risky_loop guess_counts required_counts rest)"

definition is_guess_word_risky :: "string \<Rightarrow> string \<Rightarrow> bool" where
  "is_guess_word_risky guess pGood =
     (let guess_counts = fold (\<lambda>i table. table_incr table (guess ! i)) [0..<WORD_SIZE] (replicate 26 0);
          required_counts = tally_letters pGood
      in risky_loop guess_counts required_counts [0..<26])"

section \<open>Metric records, picks and the final-pick policy\<close>

record guess_metrics =
  word :: string
  entropy :: real
  rank :: int
  is_risky :: bool
  nounType :: char
  verbType :: char

text \<open>\<open>PICK_DATA\<close>; its field \<open>word\<close> is named \<open>pick_word\<close> here.\<close>

record pick_data =
  pick_word :: string
  alternate_word :: string

text \<open>\<open>find_metric_by_word\<close>: \<open>NULL\<close> is \<open>None\<close>, a found entry is returned by value.\<close>

definition find_metric_by_word :: "string \<Rightarrow> guess_metrics list \<Rightarrow> nat \<Rightarrow> guess_metrics option" where
  "find_metric_by_word w pArray num =
     (if w = NONE then None else find (\<lambda>m. word m = w) (take num pArray))"

definition admissible :: "guess_metrics \<Rightarrow> bool" where
  "admissible pMetric \<longleftrightarrow>
     nounType pMetric \<noteq> CHR ''P'' \<and> verbType pMetric \<noteq> CHR ''T'' \<and>
     verbType pMetric \<noteq> CHR ''S'' \<and> is_risky pMetric = False"

text \<open>The search loop of \<open>find_top_linguistic_picks\<close>, which breaks at the second hit.\<close>

fun pick_scan :: "guess_metrics list \<Rightarrow> pick_data \<times> nat \<Rightarrow> pick_data \<times> nat" where
  "pick_scan [] s = s"
| "pick_scan (pMetric # rest) (pResult, found_count) =
     (if admissible pMetric then
        (if found_count = 0
         then pick_scan rest (pResult\<lparr>pick_word := word pMetric\<rparr>, found_count + 1)
         else if found_count = 1
         then (pResult\<lparr>alternate_word := word pMetric\<rparr>, found_count + 1)
         else pick_scan rest (pResult, found_count))
      else pick_scan rest (pResult, found_count))"

definition find_top_linguistic_picks :: "guess_metrics list \<Rightarrow> nat \<Rightarrow> pick_data" where
  "find_top_linguistic_picks pSortedMetrics numMetrics =
     (case pick_scan (take numMetrics pSortedMetrics)
             (\<lparr>pick_word = NONE, alternate_word = NONE\<rparr>, 0) of
        (pResult, found_count) \<Rightarrow>
          if found_count < 2 \<and> numMetrics > 0 then
            (case (if found_count = 0
                   then (pResult\<lparr>pick_word := word (pSortedMetrics ! 0)\<rparr>, 1)
                   else (pResult, found_count)) of
               (pResult, found_count) \<Rightarrow>
                 if found_count = 1 \<and> numMetrics > 1 then
                   (if alternate_word pResult = NONE then
                      (if word (pSortedMetrics ! 1) \<noteq> pick_word pResult
                       then pResult\<lparr>alternate_word := word (pSortedMetrics ! 1)\<rparr>
                       else pResult)
                    else pResult)
                 else if numMetrics = 1 then pResult\<lparr>alternate_word := NONE\<rparr>
                 else pResult)
          else pResult)"

text \<open>
  Double-precision subtraction (IEEE 754 binary64, round to nearest, ties to even): the
  exact difference is rounded to the nearest multiple of the quantum \<open>2^(e - 52)\<close>, where
  \<open>e\<close> is the binary exponent of the value (at least -1022, which covers the subnormal
  range). A result beyond the largest finite double is infinite in C; here it stays a
  large real, and its comparison with \<open>0.50\<close> comes out the same.
\<close>

definition round_half_even :: "real \<Rightarrow> int" where
  "round_half_even y =
     (let f = \<lfloor>y\<rfloor> in
      if y - of_int f < 1 / 2 then f
      else if 1 / 2 < y - of_int f then f + 1
      else if even f then f else f + 1)"

definition double_exponent :: "real \<Rightarrow> int" where
  "double_exponent x = max \<lfloor>log 2 \<bar>x\<bar>\<rfloor> (- 1022)"

definition double_quantum :: "real \<Rightarrow> real" where
  "double_quantum x = 2 powr of_int (double_exponent x - 52)"

definition round_to_double :: "real \<Rightarrow> real" where
  "round_to_double x =
     (if x = 0 then 0
      else of_int (round_half_even (x / double_quantum x)) * double_quantum x)"

definition double_sub :: "real \<Rightarrow> real \<Rightarrow> real" where
  "double_sub a b = round_to_double (a - b)"

text \<open>
  \<open>determine_final_pick\<close> prints its choice; the model returns the triple
  (final_word, final_rank, final_entropy) that the banner is formatted from.
  \<open>entropy_diff\<close> is \<open>fabs\<close> of the rounded difference of the two doubles.
\<close>

definition determine_final_pick ::
  "guess_metrics list \<Rightarrow> guess_metrics list \<Rightarrow> nat \<Rightarrow> pick_data \<Rightarrow> pick_data \<Rightarrow> string \<times> int \<times> real" where
  "determine_final_pick pRankSorted pEntropySorted numPossibleAnswers rankPicks entropyPicks =
     (let pR_Pick = find_metric_by_word (pick_word rankPicks) pRankSorted numPossibleAnswers;
          pE_Pick = find_metric_by_word (pick_word entropyPicks) pEntropySorted numPossibleAnswers;
          default_pick = (pick_word rankPicks,
                          (case pR_Pick of Some r \<Rightarrow> rank r | None \<Rightarrow> 0),
                          (case pR_Pick of Some r \<Rightarrow> entropy r | None \<Rightarrow> 0));
          top_ranked = (word (pRankSorted ! 0), rank (pRankSorted ! 0), entropy (pRankSorted ! 0))
      in case (pR_Pick, pE_Pick) of
           (Some r, Some e) \<Rightarrow>
             (let entropy_diff = \<bar>double_sub (entropy e) (entropy r)\<bar> in
              if numPossibleAnswers > LOW_POSSIBLE_ANSWER_COUNT then
                (if entropy_diff > ENTROPY_RANK_THRESHOLD
                 then (word e, rank e, entropy e)
                 else default_pick)
              else top_ranked)
         | _ \<Rightarrow> if numPossibleAnswers > 0 then top_ranked else default_pick)"

text \<open>
  Data for the examples of the final-pick policy: two entropies that are doubles, and
  twenty-eight further candidates, distinct words with ranks from 28 down to 1 and the
  entropy \<open>1/8\<close> each.
\<close>

definition low_entropy :: real where
  "low_entropy = 1 / 4 - 1 / 2 ^ 55"

definition high_entropy :: real where
  "high_entropy = 3 / 4"

definition example_others :: "guess_metrics list" where
  "example_others =
     map (\<lambda>(w, r). \<lparr>word = w, entropy = 1 / 8, rank = r, is_risky = False,
                     nounType = CHR ''N'', verbType = CHR ''N''\<rparr>)
       [(''TRACE'', 28), (''BRACE'', 27), (''GRACE'', 26), (''STARE'', 25), (''ARISE'', 24),
        (''RAISE'', 23), (''IRATE'', 22), (''LEAST'', 21), (''STEAL'', 20), (''ADOBE'', 19),
        (''ABOUT'', 18), (''OTHER'', 17), (''THEIR'', 16), (''THERE'', 15), (''WHICH'', 14),
        (''WORLD'', 13), (''HOUSE'', 12), (''PLACE'', 11), (''POINT'', 10), (''RIGHT'', 9),
        (''SMALL'', 8), (''SOUND'', 7), (''STILL'', 6), (''STUDY'', 5), (''THINK'', 4),
        (''THREE'', 3), (''WATER'', 2), (''WHERE'', 1)]"

section \<open>The game loop's sequence of updates\<close>





section \<open>The filter condition as the specification words it\<close>

text \<open>
  A candidate word passes iff (a) it has at least the required number of every required
  letter, (b) it has no excluded letter, (c) it agrees with every fixed slot of the green
  mask, and (d) at no position does it have a letter recorded as forbidden there in some
  turn (an entry \<open>*\<close> records nothing).
\<close>

definition candidate_passes :: "string \<Rightarrow> string list \<Rightarrow> string \<Rightarrow> string \<Rightarrow> string \<Rightarrow> bool" where
  "candidate_passes pMask notMask pGood pBad pWord \<longleftrightarrow>
     (\<forall>c. 0 < count_list pGood c \<longrightarrow> count_list pGood c \<le> count_list pWord c) \<and>
     (\<forall>c\<in>set pWord. c \<notin> set pBad) \<and>
     (\<forall>i<WORD_SIZE. pMask ! i \<noteq> CHR ''*'' \<longrightarrow> pWord ! i = pMask ! i) \<and>
     (\<forall>t<6. \<forall>i<WORD_SIZE. notMask ! t ! i \<noteq> CHR ''*'' \<longrightarrow> pWord ! i \<noteq> notMask ! t ! i)"

definition valid_word :: "string \<Rightarrow> bool" where
  "valid_word w \<longleftrightarrow> length w = WORD_SIZE \<and> (\<forall>c\<in>set w. is_upper c)"

section \<open>The two-pass reference definition of the feedback pattern\<close>

text \<open>
  The evaluator as the specification words it. Pass 1: a position is Green iff the two
  letters agree there, and the letters of the answer at the other positions are tallied.
  Pass 2: going through the positions from the left, a position that is not Green is
  Yellow iff the guessed letter still has a positive remaining count, which is then
  decremented, and Black otherwise.
\<close>

definition remaining_letters :: "string \<Rightarrow> string \<Rightarrow> char \<Rightarrow> nat" where
  "remaining_letters guess answer =
     count_list (map snd (filter (\<lambda>(g, a). g \<noteq> a) (zip guess answer)))"

fun spec_pass2 :: "(char \<times> char) list \<Rightarrow> (char \<Rightarrow> nat) \<Rightarrow> string" where
  "spec_pass2 [] remaining = []"
| "spec_pass2 ((g, a) # rest) remaining =
     (if g = a then CHR ''G'' # spec_pass2 rest remaining
      else if remaining g > 0 then CHR ''Y'' # spec_pass2 rest (remaining(g := remaining g - 1))
      else CHR ''B'' # spec_pass2 rest remaining)"

definition spec_feedback :: "string \<Rightarrow> string \<Rightarrow> string" where
  "spec_feedback guess answer = spec_pass2 (zip guess answer) (remaining_letters guess answer)"

section \<open>The excluded and the required letters\<close>

text \<open>
  C1. The claim: in every state reached from the initial one by updates with
  evaluator-produced feedback, no letter is both excluded (in \<open>pBad\<close>) and required (in
  \<open>pGood\<close>). The code does not keep this: for the guess EERIE against the answer THOSE
  the evaluator returns BBBBG; the update reaches the Black E at position 0 while the
  required count of E is still zero and excludes it, and only then the Green E at
  position 4 makes it required. The answer THOSE itself no longer fits the state.
\<close>

theorem excluded_and_required_after_black_before_green:
  "get_feedback_pattern ''EERIE'' ''THOSE'' = ''BBBBG'' \<and>
   gs_good (update_game_constraints ''EERIE'' (get_feedback_pattern ''EERIE'' ''THOSE'') initial_state 1) = ''E'' \<and>
   gs_bad (update_game_constraints ''EERIE'' (get_feedback_pattern ''EERIE'' ''THOSE'') initial_state 1) = ''ERI'' \<and>
   (let st = update_game_constraints ''EERIE'' (get_feedback_pattern ''EERIE'' ''THOSE'') initial_state 1
    in is_good_fit (gs_mask st) (gs_notMask st) (gs_good st) (gs_bad st) ''THOSE'' = 0)"
  by code_simp

section \<open>Picks\<close>

text \<open>
  C2. The claim: for a non-empty list the primary pick is never the sentinel, and the
  alternate is the sentinel only when the list has exactly one member. The code leaves
  the alternate at the sentinel for a list of two distinct words whose only admissible
  entry is the second one: the search takes CRANE as the pick, and the fallback compares
  the entry at index 1 (CRANE again) with the pick and, finding them equal, assigns
  nothing, although TREES is available.
\<close>

theorem alternate_none_with_two_candidates:
  "find_top_linguistic_picks
     [\<lparr>word = ''TREES'', entropy = 1, rank = 90, is_risky = False,
        nounType = CHR ''P'', verbType = CHR ''N''\<rparr>,
      \<lparr>word = ''CRANE'', entropy = 1, rank = 80, is_risky = False,
        nounType = CHR ''S'', verbType = CHR ''N''\<rparr>] 2
   = \<lparr>pick_word = ''CRANE'', alternate_word = ''NONE''\<rparr>"
  by (simp add: find_top_linguistic_picks_def admissible_def NONE_def)

section \<open>Final-pick policy\<close>

lemma find_metric_by_word_word:
  "find_metric_by_word w pArray num = Some m \<Longrightarrow> word m = w"
  by (auto simp: find_metric_by_word_def find_Some_iff split: if_splits)

lemma double_exponent_eq:
  assumes "2 powr of_int e \<le> \<bar>x\<bar>" "\<bar>x\<bar> < 2 powr of_int (e + 1)" "- 1022 \<le> e"
  shows "double_exponent x = e"
proof -
  have "0 < (2::real) powr of_int e" by simp
  then have pos: "0 < \<bar>x\<bar>"
    using assms(1) by linarith
  have "of_int e \<le> log 2 \<bar>x\<bar>"
    using assms(1) pos by (simp add: le_log_iff)
  moreover have "log 2 \<bar>x\<bar> < of_int e + 1"
    using assms(2) pos by (simp add: log_less_iff)
  ultimately have "\<lfloor>log 2 \<bar>x\<bar>\<rfloor> = e"
    by (simp add: floor_eq_iff)
  then show ?thesis
    using assms(3) by (simp add: double_exponent_def)
qed

lemma round_to_double_eq:
  assumes "2 powr of_int e \<le> \<bar>x\<bar>" "\<bar>x\<bar> < 2 powr of_int (e + 1)" "- 1022 \<le> e"
  shows "round_to_double x
           = of_int (round_half_even (x / 2 powr of_int (e - 52))) * 2 powr of_int (e - 52)"
proof -
  have "0 < (2::real) powr of_int e" by simp
  then have "x \<noteq> 0"
    using assms(1) by auto
  then show ?thesis
    by (simp add: round_to_double_def double_quantum_def double_exponent_eq [OF assms])
qed

lemma round_to_double_three_quarters: "round_to_double (3 / 4) = 3 / 4"
  using round_to_double_eq [of "-1" "3 / 4"]
  by (simp add: powr_minus round_half_even_def Let_def)

lemma round_to_double_quarter: "round_to_double (1 / 4) = 1 / 4"
  using round_to_double_eq [of "-2" "1 / 4"]
  by (simp add: powr_minus round_half_even_def Let_def)

lemma round_to_double_high_entropy: "round_to_double high_entropy = high_entropy"
  unfolding high_entropy_def by (rule round_to_double_three_quarters)

lemma round_to_double_low_entropy: "round_to_double low_entropy = low_entropy"
  unfolding low_entropy_def
  using round_to_double_eq [of "-3" "1 / 4 - 1 / 2 ^ 55"]
  by (simp add: powr_minus round_half_even_def Let_def)

lemma double_sub_high_low: "double_sub high_entropy low_entropy = 1 / 2"
  unfolding double_sub_def high_entropy_def low_entropy_def
  using round_to_double_eq [of "-1" "3 / 4 - (1 / 4 - 1 / 2 ^ 55)"]
  by (simp add: powr_minus round_half_even_def Let_def)

text \<open>
  C3, as stated, fails on the code. Thirty candidates; the rank-axis pick CRANE has the
  entropy \<open>1/4 - 2^-55\<close> and the entropy-axis pick SLATE has \<open>3/4\<close>, both doubles. Their
  exact difference exceeds \<open>0.50\<close>, but the double subtraction rounds it to exactly
  \<open>0.5\<close>, the test \<open>entropy_diff > 0.50\<close> fails and the rank-axis pick is chosen.
\<close>

theorem final_pick_exact_gap_counterexample:
  "(0.50 :: real) < \<bar>high_entropy - low_entropy\<bar> \<and>
   round_to_double high_entropy = high_entropy \<and>
   round_to_double low_entropy = low_entropy \<and>
   length (\<lparr>word = ''CRANE'', entropy = low_entropy, rank = 90, is_risky = False,
             nounType = CHR ''N'', verbType = CHR ''N''\<rparr> #
           \<lparr>word = ''SLATE'', entropy = high_entropy, rank = 50, is_risky = False,
             nounType = CHR ''N'', verbType = CHR ''N''\<rparr> # example_others) = 30 \<and>
   determine_final_pick
     (\<lparr>word = ''CRANE'', entropy = low_entropy, rank = 90, is_risky = False,
        nounType = CHR ''N'', verbType = CHR ''N''\<rparr> #
      \<lparr>word = ''SLATE'', entropy = high_entropy, rank = 50, is_risky = False,
        nounType = CHR ''N'', verbType = CHR ''N''\<rparr> # example_others)
     (\<lparr>word = ''SLATE'', entropy = high_entropy, rank = 50, is_risky = False,
        nounType = CHR ''N'', verbType = CHR ''N''\<rparr> #
      \<lparr>word = ''CRANE'', entropy = low_entropy, rank = 90, is_risky = False,
        nounType = CHR ''N'', verbType = CHR ''N''\<rparr> # example_others)
     30 \<lparr>pick_word = ''CRANE'', alternate_word = ''SLATE''\<rparr>
        \<lparr>pick_word = ''SLATE'', alternate_word = ''CRANE''\<rparr>
   = (''CRANE'', 90, low_entropy)"
proof -
  have gap: "(0.50 :: real) < \<bar>high_entropy - low_entropy\<bar>"
    by (simp add: high_entropy_def low_entropy_def)
  have len: "length example_others = 28"
    by (simp add: example_others_def)
  show ?thesis
    using gap len
    by (simp add: determine_final_pick_def find_metric_by_word_def NONE_def
          LOW_POSSIBLE_ANSWER_COUNT_def ENTROPY_RANK_THRESHOLD_def
          round_to_double_high_entropy round_to_double_low_entropy double_sub_high_low)
qed

text \<open>
  C3, amended. For a non-empty candidate set (\<open>0 < N\<close>): when both axis picks resolve to
  metrics \<open>r\<close> and \<open>e\<close>, then for \<open>N > 25\<close> the final pick is the entropy-axis pick exactly
  when the absolute value of the double-precision difference of the two entropies, the
  exact difference rounded to the nearest double, exceeds \<open>0.50\<close>, and the rank-axis pick
  otherwise; for \<open>N \<le> 25\<close> it is the first entry of the rank-sorted list; when one of the
  picks does not resolve, it is the first entry of the rank-sorted list. The rank and the
  entropy reported are those of the chosen entry.
\<close>

theorem determine_final_pick_rounded_policy:
  "0 < N \<Longrightarrow>
   (\<forall>r e. find_metric_by_word (pick_word rankPicks) pRankSorted N = Some r \<and>
          find_metric_by_word (pick_word entropyPicks) pEntropySorted N = Some e \<longrightarrow>
      (25 < N \<longrightarrow>
         determine_final_pick pRankSorted pEntropySorted N rankPicks entropyPicks =
           (if \<bar>round_to_double (entropy e - entropy r)\<bar> > 0.50
            then (pick_word entropyPicks, rank e, entropy e)
            else (pick_word rankPicks, rank r, entropy r))) \<and>
      (N \<le> 25 \<longrightarrow>
         determine_final_pick pRankSorted pEntropySorted N rankPicks entropyPicks =
           (word (pRankSorted ! 0), rank (pRankSorted ! 0), entropy (pRankSorted ! 0)))) \<and>
   (find_metric_by_word (pick_word rankPicks) pRankSorted N = None \<or>
    find_metric_by_word (pick_word entropyPicks) pEntropySorted N = None \<longrightarrow>
      determine_final_pick pRankSorted pEntropySorted N rankPicks entropyPicks =
        (word (pRankSorted ! 0), rank (pRankSorted ! 0), entropy (pRankSorted ! 0)))"
  by (auto simp: determine_final_pick_def Let_def LOW_POSSIBLE_ANSWER_COUNT_def
        ENTROPY_RANK_THRESHOLD_def double_sub_def
        dest: find_metric_by_word_word split: option.splits)

theorem determine_final_pick_rounded_policy_witness:
  "determine_final_pick
     (\<lparr>word = ''CRANE'', entropy = 4, rank = 90, is_risky = False,
        nounType = CHR ''N'', verbType = CHR ''N''\<rparr> #
      \<lparr>word = ''SLATE'', entropy = 19 / 4, rank = 50, is_risky = False,
        nounType = CHR ''N'', verbType = CHR ''N''\<rparr> # example_others)
     (\<lparr>word = ''SLATE'', entropy = 19 / 4, rank = 50, is_risky = False,
        nounType = CHR ''N'', verbType = CHR ''N''\<rparr> #
      \<lparr>word = ''CRANE'', entropy = 4, rank = 90, is_risky = False,
        nounType = CHR ''N'', verbType = CHR ''N''\<rparr> # example_others)
     30 \<lparr>pick_word = ''CRANE'', alternate_word = ''SLATE''\<rparr>
        \<lparr>pick_word = ''SLATE'', alternate_word = ''CRANE''\<rparr>
   = (''SLATE'', 50, 19 / 4) \<and>
   determine_final_pick
     (\<lparr>word = ''CRANE'', entropy = 4, rank = 90, is_risky = False,
        nounType = CHR ''N'', verbType = CHR ''N''\<rparr> #
      \<lparr>word = ''SLATE'', entropy = 17 / 4, rank = 50, is_risky = False,
        nounType = CHR ''N'', verbType = CHR ''N''\<rparr> # example_others)
     (\<lparr>word = ''SLATE'', entropy = 17 / 4, rank = 50, is_risky = False,
        nounType = CHR ''N'', verbType = CHR ''N''\<rparr> #
      \<lparr>word = ''CRANE'', entropy = 4, rank = 90, is_risky = False,
        nounType = CHR ''N'', verbType = CHR ''N''\<rparr> # example_others)
     30 \<lparr>pick_word = ''CRANE'', alternate_word = ''SLATE''\<rparr>
        \<lparr>pick_word = ''SLATE'', alternate_word = ''CRANE''\<rparr>
   = (''CRANE'', 90, 4) \<and>
   determine_final_pick
     [\<lparr>word = ''CRANE'', entropy = 0, rank = 90, is_risky = False,
        nounType = CHR ''N'', verbType = CHR ''N''\<rparr>,
      \<lparr>word = ''SLATE'', entropy = 1, rank = 50, is_risky = False,
        nounType = CHR ''N'', verbType = CHR ''N''\<rparr>]
     [\<lparr>word = ''SLATE'', entropy = 1, rank = 50, is_risky = False,
        nounType = CHR ''N'', verbType = CHR ''N''\<rparr>,
      \<lparr>word = ''CRANE'', entropy = 0, rank = 90, is_risky = False,
        nounType = CHR ''N'', verbType = CHR ''N''\<rparr>]
     2 \<lparr>pick_word = ''SLATE'', alternate_word = ''CRANE''\<rparr>
       \<lparr>pick_word = ''SLATE'', alternate_word = ''CRANE''\<rparr>
   = (''CRANE'', 90, 0) \<and>
   determine_final_pick
     [\<lparr>word = ''TREES'', entropy = 0, rank = 90, is_risky = False,
        nounType = CHR ''P'', verbType = CHR ''N''\<rparr>]
     [\<lparr>word = ''TREES'', entropy = 0, rank = 90, is_risky = False,
        nounType = CHR ''P'', verbType = CHR ''N''\<rparr>]
     1 \<lparr>pick_word = ''NONE'', alternate_word = ''NONE''\<rparr>
       \<lparr>pick_word = ''TREES'', alternate_word = ''NONE''\<rparr>
   = (''TREES'', 90, 0)"
  using determine_final_pick_rounded_policy
     [of 30 "\<lparr>pick_word = ''CRANE'', alternate_word = ''SLATE''\<rparr>"
       "\<lparr>word = ''CRANE'', entropy = 4, rank = 90, is_risky = False,
          nounType = CHR ''N'', verbType = CHR ''N''\<rparr> #
        \<lparr>word = ''SLATE'', entropy = 19 / 4, rank = 50, is_risky = False,
          nounType = CHR ''N'', verbType = CHR ''N''\<rparr> # example_others"
       "\<lparr>pick_word = ''SLATE'', alternate_word = ''CRANE''\<rparr>"
       "\<lparr>word = ''SLATE'', entropy = 19 / 4, rank = 50, is_risky = False,
          nounType = CHR ''N'', verbType = CHR ''N''\<rparr> #
        \<lparr>word = ''CRANE'', entropy = 4, rank = 90, is_risky = False,
          nounType = CHR ''N'', verbType = CHR ''N''\<rparr> # example_others"]
    determine_final_pick_rounded_policy
     [of 30 "\<lparr>pick_word = ''CRANE'', alternate_word = ''SLATE''\<rparr>"
       "\<lparr>word = ''CRANE'', entropy = 4, rank = 90, is_risky = False,
          nounType = CHR ''N'', verbType = CHR ''N''\<rparr> #
        \<lparr>word = ''SLATE'', entropy = 17 / 4, rank = 50, is_risky = False,
          nounType = CHR ''N'', verbType = CHR ''N''\<rparr> # example_others"
       "\<lparr>pick_word = ''SLATE'', alternate_word = ''CRANE''\<rparr>"
       "\<lparr>word = ''SLATE'', entropy = 17 / 4, rank = 50, is_risky = False,
          nounType = CHR ''N'', verbType = CHR ''N''\<rparr> #
        \<lparr>word = ''CRANE'', entropy = 4, rank = 90, is_risky = False,
          nounType = CHR ''N'', verbType = CHR ''N''\<rparr> # example_others"]
    determine_final_pick_rounded_policy
     [of 2 "\<lparr>pick_word = ''SLATE'', alternate_word = ''CRANE''\<rparr>"
       "[\<lparr>word = ''CRANE'', entropy = 0, rank = 90, is_risky = False,
          nounType = CHR ''N'', verbType = CHR ''N''\<rparr>,
        \<lparr>word = ''SLATE'', entropy = 1, rank = 50, is_risky = False,
          nounType = CHR ''N'', verbType = CHR ''N''\<rparr>]"
       "\<lparr>pick_word = ''SLATE'', alternate_word = ''CRANE''\<rparr>"
       "[\<lparr>word = ''SLATE'', entropy = 1, rank = 50, is_risky = False,
          nounType = CHR ''N'', verbType = CHR ''N''\<rparr>,
        \<lparr>word = ''CRANE'', entropy = 0, rank = 90, is_risky = False,
          nounType = CHR ''N'', verbType = CHR ''N''\<rparr>]"]
    determine_final_pick_rounded_policy
     [of 1 "\<lparr>pick_word = ''NONE'', alternate_word = ''NONE''\<rparr>"
       "[\<lparr>word = ''TREES'', entropy = 0, rank = 90, is_risky = False,
          nounType = CHR ''P'', verbType = CHR ''N''\<rparr>]"
       "\<lparr>pick_word = ''TREES'', alternate_word = ''NONE''\<rparr>"
       "[\<lparr>word = ''TREES'', entropy = 0, rank = 90, is_risky = False,
          nounType = CHR ''P'', verbType = CHR ''N''\<rparr>]"]
  by (simp add: find_metric_by_word_def NONE_def
        round_to_double_three_quarters round_to_double_quarter)

section \<open>Monotonicity of the constraint update\<close>



lemma is_upper_not_star: "is_upper c \<Longrightarrow> c \<noteq> CHR ''*''"
  by (auto simp: is_upper_def)







lemma update_step_lengths:
  "length (gs_good st) \<le> length (gs_good (update_step guess pat t cc idx st)) \<and>
   length (gs_bad st) \<le> length (gs_bad (update_step guess pat t cc idx st))"
  by (simp add: update_step_def Let_def)

lemma fold_update_step_lengths:
  "length (gs_good st) \<le> length (gs_good (fold (update_step guess pat t cc) idxs st)) \<and>
   length (gs_bad st) \<le> length (gs_bad (fold (update_step guess pat t cc) idxs st))"
proof (induction idxs arbitrary: st)
  case Nil
  show ?case by simp
next
  case (Cons idx idxs)
  show ?case
    using update_step_lengths [of st guess pat t cc idx]
      Cons.IH [of "update_step guess pat t cc idx st"]
    by simp
qed



section \<open>Count tables\<close>

lemma letter_index_less: "is_upper c \<Longrightarrow> letter_index c < 26"
  by (auto simp: is_upper_def letter_index_def)

lemma letter_index_inj:
  assumes "is_upper c" "is_upper d" "letter_index c = letter_index d"
  shows "c = d"
proof -
  have "(of_char c :: nat) = of_char d"
    using assms unfolding is_upper_def letter_index_def by linarith
  then show ?thesis by simp
qed

lemma letter_of_index:
  assumes "is_upper c"
  shows "letter_of (letter_index c) = c"
proof -
  have "65 + nat (int (of_char c :: nat) - 65) = (of_char c :: nat)"
    using assms unfolding is_upper_def by linarith
  then show ?thesis by (simp add: letter_index_def letter_of_def)
qed

lemma index_letter_of: "i < 26 \<Longrightarrow> letter_index (letter_of i) = i"
  by (auto simp: letter_index_def letter_of_def)

lemma is_upper_letter_of: "i < 26 \<Longrightarrow> is_upper (letter_of i)"
  by (auto simp: is_upper_def letter_of_def)

lemma length_table_incr [simp]: "length (table_incr t c) = length t"
  by (simp add: table_incr_def)

lemma length_table_decr [simp]: "length (table_decr t c) = length t"
  by (simp add: table_decr_def)

lemma table_incr_nth:
  assumes "length t = 26" "is_upper c" "is_upper d"
  shows "table_incr t c ! letter_index d = t ! letter_index d + (if c = d then 1 else 0)"
proof (cases "c = d")
  case True
  then show ?thesis
    using assms by (simp add: table_incr_def letter_index_less)
next
  case False
  then have "letter_index c \<noteq> letter_index d"
    using assms letter_index_inj by blast
  then show ?thesis
    using False by (simp add: table_incr_def)
qed

lemma table_decr_nth:
  assumes "length t = 26" "is_upper c" "is_upper d"
  shows "table_decr t c ! letter_index d = t ! letter_index d - (if c = d then 1 else 0)"
proof (cases "c = d")
  case True
  then show ?thesis
    using assms by (simp add: table_decr_def letter_index_less)
next
  case False
  then have "letter_index c \<noteq> letter_index d"
    using assms letter_index_inj by blast
  then show ?thesis
    using False by (simp add: table_decr_def)
qed

lemma fold_table_incr_length [simp]:
  "length (fold (\<lambda>c table. table_incr table c) s t) = length t"
  by (induction s arbitrary: t) auto

lemma fold_table_incr_nth:
  assumes "length t = 26" "\<forall>x\<in>set s. is_upper x" "is_upper d"
  shows "fold (\<lambda>c table. table_incr table c) s t ! letter_index d
           = t ! letter_index d + int (count_list s d)"
  using assms
proof (induction s arbitrary: t)
  case Nil
  then show ?case by simp
next
  case (Cons x s)
  then show ?case by (simp add: table_incr_nth)
qed

lemma tally_letters_nth:
  "\<forall>x\<in>set s. is_upper x \<Longrightarrow> is_upper d \<Longrightarrow>
   tally_letters s ! letter_index d = int (count_list s d)"
  by (simp add: tally_letters_def fold_table_incr_nth letter_index_less)

lemma fold_nth_upt: "fold (\<lambda>i. f (xs ! i)) [0..<length xs] = fold f xs"
proof -
  have "fold f (map ((!) xs) [0..<length xs]) = fold (f \<circ> (!) xs) [0..<length xs]"
    by (rule fold_map)
  then show ?thesis by (simp add: map_nth comp_def)
qed

lemma upper_index_ex:
  "(\<exists>i\<in>set [0..<26]. P i) \<longleftrightarrow> (\<exists>c. is_upper c \<and> P (letter_index c))"
proof
  assume "\<exists>i\<in>set [0..<26]. P i"
  then obtain i where "i < 26" "P i" by auto
  then have "is_upper (letter_of i) \<and> P (letter_index (letter_of i))"
    by (simp add: is_upper_letter_of index_letter_of)
  then show "\<exists>c. is_upper c \<and> P (letter_index c)" by blast
next
  assume "\<exists>c. is_upper c \<and> P (letter_index c)"
  then show "\<exists>i\<in>set [0..<26]. P i"
    using letter_index_less by auto
qed

section \<open>Risk assessor: antitone in the required letters\<close>

lemma risky_loop_iff:
  "risky_loop gc rc idxs \<longleftrightarrow> (\<exists>i\<in>set idxs. gc ! i > 1 \<and> gc ! i > rc ! i)"
  by (induction idxs) auto

lemma is_guess_word_risky_iff:
  assumes "length w = WORD_SIZE" "\<forall>c\<in>set w. is_upper c" "\<forall>c\<in>set g. is_upper c"
  shows "is_guess_word_risky w g \<longleftrightarrow>
           (\<exists>c. is_upper c \<and> 1 < count_list w c \<and> count_list g c < count_list w c)"
proof -
  have gc: "fold (\<lambda>i table. table_incr table (w ! i)) [0..<WORD_SIZE] (replicate 26 0)
              = tally_letters w"
    using fold_nth_upt [of "\<lambda>c table. table_incr table c" w] assms(1)
    by (simp add: tally_letters_def)
  show ?thesis
    unfolding is_guess_word_risky_def Let_def gc risky_loop_iff upper_index_ex
    using assms(2,3) by (auto simp: tally_letters_nth)
qed

text \<open>
  C10. For a word of five upper-case letters and required-letter strings \<open>g\<close>, \<open>g'\<close> of
  upper-case letters: if every letter occurs in \<open>g\<close> at most as often as in \<open>g'\<close> and the
  word is risky under \<open>g'\<close>, it is risky under \<open>g\<close>; and a word without a repeated letter
  is not risky under any required-letter string.
\<close>

theorem risky_antitone_in_required:
  "length w = WORD_SIZE \<Longrightarrow> \<forall>c\<in>set w. is_upper c \<Longrightarrow>
   \<forall>c\<in>set g. is_upper c \<Longrightarrow> \<forall>c\<in>set g'. is_upper c \<Longrightarrow>
   ((\<forall>c. count_list g c \<le> count_list g' c) \<longrightarrow>
      is_guess_word_risky w g' \<longrightarrow> is_guess_word_risky w g) \<and>
   (distinct w \<longrightarrow> \<not> is_guess_word_risky w g)"
proof (intro conjI impI)
  assume a: "length w = WORD_SIZE" "\<forall>c\<in>set w. is_upper c"
    "\<forall>c\<in>set g. is_upper c" "\<forall>c\<in>set g'. is_upper c"
  {
    assume le: "\<forall>c. count_list g c \<le> count_list g' c" and r: "is_guess_word_risky w g'"
    from r obtain c where c: "is_upper c" "1 < count_list w c" "count_list g' c < count_list w c"
      using a by (auto simp: is_guess_word_risky_iff)
    moreover have "count_list g c \<le> count_list g' c" using le by simp
    ultimately have "is_upper c \<and> 1 < count_list w c \<and> count_list g c < count_list w c"
      by simp
    then show "is_guess_word_risky w g"
      using a by (auto simp: is_guess_word_risky_iff)
  }
  {
    assume d: "distinct w"
    have "count_list w c \<le> 1" for c
      using d by (induction w) auto
    then have "\<not> (\<exists>c. is_upper c \<and> 1 < count_list w c \<and> count_list g c < count_list w c)"
      by (auto simp: not_less)
    then show "\<not> is_guess_word_risky w g"
      using a by (simp add: is_guess_word_risky_iff)
  }
qed

theorem risky_antitone_in_required_witness:
  "is_guess_word_risky ''EERIE'' ''E'' \<and> \<not> is_guess_word_risky ''CRANE'' ''E''"
proof -
  have r: "is_guess_word_risky ''EERIE'' ''EE''" by code_simp
  have le: "\<forall>c. count_list ''E'' c \<le> count_list ''EE'' c" by simp
  have u: "length ''EERIE'' = WORD_SIZE" "\<forall>c\<in>set ''EERIE''. is_upper c"
    "length ''CRANE'' = WORD_SIZE" "\<forall>c\<in>set ''CRANE''. is_upper c"
    "\<forall>c\<in>set ''E''. is_upper c" "\<forall>c\<in>set ''EE''. is_upper c"
    by (simp_all add: WORD_SIZE_def is_upper_def)
  have d: "distinct ''CRANE''" by simp
  show ?thesis
    using risky_antitone_in_required [OF u(1,2,5,6)] risky_antitone_in_required [OF u(3,4,5,5)]
      r le d by blast
qed

section \<open>Candidate filter: the four conditions\<close>

lemma fold_count_char:
  "fold (\<lambda>x n. if x = c then n + 1 else n) w (a::int) = a + int (count_list w c)"
  by (induction w arbitrary: a) auto

lemma word_count_eq:
  assumes "length pWord = WORD_SIZE"
  shows "word_count pWord c = int (count_list pWord c)"
proof -
  have "word_count pWord c = fold (\<lambda>x (n::int). if x = c then n + 1 else n) pWord 0"
    using fold_nth_upt [of "\<lambda>x (n::int). if x = c then n + 1 else n" pWord] assms
    by (simp add: word_count_def)
  then show ?thesis by (simp add: fold_count_char)
qed

lemma required_loop_iff:
  "required_loop rc pWord idxs \<longleftrightarrow>
     (\<forall>i\<in>set idxs. \<not> (rc ! i > 0 \<and> word_count pWord (letter_of i) < rc ! i))"
  by (induction idxs) auto

lemma notmask_loop_iff:
  "notmask_loop notMask idx theChar ts \<longleftrightarrow> (\<forall>t\<in>set ts. notMask ! t ! idx \<noteq> theChar)"
  by (induction ts) auto

lemma position_loop_iff:
  "position_loop pMask notMask pBad pWord idxs \<longleftrightarrow>
     (\<forall>idx\<in>set idxs.
        \<not> strchr_found pBad (pWord ! idx) \<and>
        (pMask ! idx = CHR ''*'' \<or> pMask ! idx = pWord ! idx) \<and>
        (\<forall>t\<in>set [0..<6]. notMask ! t ! idx \<noteq> pWord ! idx))"
  by (induction idxs) (auto simp: Let_def notmask_loop_iff)

lemma upper_index_all:
  "(\<forall>i\<in>set [0..<26]. P i) \<longleftrightarrow> (\<forall>c. is_upper c \<longrightarrow> P (letter_index c))"
  using upper_index_ex [of "\<lambda>i. \<not> P i"] by blast

lemma required_part:
  assumes "valid_word pWord" "\<forall>c\<in>set pGood. is_upper c"
  shows "required_loop (tally_letters pGood) pWord [0..<26] \<longleftrightarrow>
           (\<forall>c. 0 < count_list pGood c \<longrightarrow> count_list pGood c \<le> count_list pWord c)"
proof -
  have len: "length pWord = WORD_SIZE"
    using assms(1) by (simp add: valid_word_def)
  have "required_loop (tally_letters pGood) pWord [0..<26] \<longleftrightarrow>
          (\<forall>c. is_upper c \<longrightarrow> \<not> (0 < count_list pGood c \<and> count_list pWord c < count_list pGood c))"
    unfolding required_loop_iff upper_index_all
    using assms(2) len by (simp add: tally_letters_nth letter_of_index word_count_eq)
  also have "\<dots> \<longleftrightarrow> (\<forall>c. 0 < count_list pGood c \<longrightarrow> count_list pGood c \<le> count_list pWord c)"
  proof -
    have "is_upper c" if "0 < count_list pGood c" for c
      using that assms(2) by (metis count_list_0_iff less_numeral_extra(3))
    then show ?thesis by (meson not_less)
  qed
  finally show ?thesis .
qed

lemma position_part:
  assumes "valid_word pWord"
  shows "position_loop pMask notMask pBad pWord [0..<WORD_SIZE] \<longleftrightarrow>
           (\<forall>c\<in>set pWord. c \<notin> set pBad) \<and>
           (\<forall>i<WORD_SIZE. pMask ! i \<noteq> CHR ''*'' \<longrightarrow> pWord ! i = pMask ! i) \<and>
           (\<forall>t<6. \<forall>i<WORD_SIZE. notMask ! t ! i \<noteq> CHR ''*'' \<longrightarrow> pWord ! i \<noteq> notMask ! t ! i)"
proof -
  have len: "length pWord = WORD_SIZE" and up: "\<forall>c\<in>set pWord. is_upper c"
    using assms by (simp_all add: valid_word_def)
  have nth_up: "is_upper (pWord ! i)" if "i < WORD_SIZE" for i
    using that len up by simp
  have not_nul: "pWord ! i \<noteq> CHR 0x00" if "i < WORD_SIZE" for i
    using nth_up [OF that] by (auto simp: is_upper_def)
  have not_star: "pWord ! i \<noteq> CHR ''*''" if "i < WORD_SIZE" for i
    using nth_up [OF that] by (rule is_upper_not_star)
  have b: "(\<forall>c\<in>set pWord. c \<notin> set pBad) \<longleftrightarrow> (\<forall>i<WORD_SIZE. pWord ! i \<notin> set pBad)"
    using len by (simp add: all_set_conv_all_nth)
  have d: "(\<forall>idx<WORD_SIZE. \<forall>t<6. notMask ! t ! idx \<noteq> pWord ! idx) \<longleftrightarrow>
           (\<forall>t<6. \<forall>i<WORD_SIZE. notMask ! t ! i \<noteq> CHR ''*'' \<longrightarrow> pWord ! i \<noteq> notMask ! t ! i)"
    using not_star by metis
  have "position_loop pMask notMask pBad pWord [0..<WORD_SIZE] \<longleftrightarrow>
          (\<forall>i<WORD_SIZE. pWord ! i \<notin> set pBad) \<and>
          (\<forall>i<WORD_SIZE. pMask ! i \<noteq> CHR ''*'' \<longrightarrow> pWord ! i = pMask ! i) \<and>
          (\<forall>idx<WORD_SIZE. \<forall>t<6. notMask ! t ! idx \<noteq> pWord ! idx)"
    unfolding position_loop_iff
    using not_nul by (auto simp: strchr_found_def)
  then show ?thesis
    unfolding b d .
qed

lemma is_good_fit_iff:
  assumes "valid_word pWord" "\<forall>c\<in>set pGood. is_upper c"
  shows "is_good_fit pMask notMask pGood pBad pWord = 1 \<longleftrightarrow>
           candidate_passes pMask notMask pGood pBad pWord"
proof -
  have "is_good_fit pMask notMask pGood pBad pWord = 1 \<longleftrightarrow>
          required_loop (tally_letters pGood) pWord [0..<26] \<and>
          position_loop pMask notMask pBad pWord [0..<WORD_SIZE]"
    by (simp add: is_good_fit_def Let_def)
  then show ?thesis
    unfolding candidate_passes_def required_part [OF assms] position_part [OF assms(1)] .
qed

lemma is_good_fit_cases:
  "is_good_fit pMask notMask pGood pBad pWord = 0 \<or> is_good_fit pMask notMask pGood pBad pWord = 1"
  by (simp add: is_good_fit_def Let_def)


lemma filter_loop_invariant:
  assumes "n \<le> length C"
  shows "\<exists>arr k. fold (filter_step pMask notMask pGood pBad) [0..<n] (C, 0) = (arr, k) \<and>
           k \<le> n \<and> length arr = length C \<and>
           take k arr = filter (\<lambda>w. is_good_fit pMask notMask pGood pBad w \<noteq> 0) (take n C) \<and>
           drop n arr = drop n C"
  using assms
proof (induction n)
  case 0
  show ?case by simp
next
  case (Suc n)
  let ?P = "\<lambda>w. is_good_fit pMask notMask pGood pBad w \<noteq> 0"
  from Suc obtain arr k where
    run: "fold (filter_step pMask notMask pGood pBad) [0..<n] (C, 0) = (arr, k)"
    and k: "k \<le> n" and len: "length arr = length C"
    and kept: "take k arr = filter ?P (take n C)" and rest: "drop n arr = drop n C"
    by auto
  have n: "n < length C" using Suc.prems by simp
  have at_n: "arr ! n = C ! n"
    using rest n len by (metis hd_drop_conv_nth)
  have tk: "take (Suc n) C = take n C @ [C ! n]"
    using n by (simp add: take_Suc_conv_app_nth)
  have step: "fold (filter_step pMask notMask pGood pBad) [0..<Suc n] (C, 0)
                = filter_step pMask notMask pGood pBad n (arr, k)"
    using run by simp
  show ?case
    unfolding step
  proof (cases "?P (C ! n)")
    case True
    have kl: "k < length arr" using k n len by simp
    have "take (Suc k) (arr[k := C ! n]) = take k arr @ [C ! n]"
      using kl by (simp add: take_Suc_conv_app_nth)
    moreover have "drop (Suc n) (arr[k := C ! n]) = drop (Suc n) C"
      using k rest by (metis drop_Suc drop_update_cancel le_imp_less_Suc tl_drop)
    ultimately show "\<exists>arr' k'. filter_step pMask notMask pGood pBad n (arr, k) = (arr', k') \<and>
           k' \<le> Suc n \<and> length arr' = length C \<and>
           take k' arr' = filter ?P (take (Suc n) C) \<and> drop (Suc n) arr' = drop (Suc n) C"
      using True k len kept at_n tk by (simp add: filter_step_def Let_def)
  next
    case False
    have "drop (Suc n) arr = drop (Suc n) C"
      using rest by (metis drop_Suc tl_drop)
    then show "\<exists>arr' k'. filter_step pMask notMask pGood pBad n (arr, k) = (arr', k') \<and>
           k' \<le> Suc n \<and> length arr' = length C \<and>
           take k' arr' = filter ?P (take (Suc n) C) \<and> drop (Suc n) arr' = drop (Suc n) C"
      using False k len kept at_n tk by (simp add: filter_step_def Let_def)
  qed
qed

lemma surviving_filter:
  assumes "n \<le> length C"
  shows "surviving (filter_possible_answers C n pMask notMask pGood pBad)
           = filter (\<lambda>w. is_good_fit pMask notMask pGood pBad w \<noteq> 0) (take n C)"
    and "snd (filter_possible_answers C n pMask notMask pGood pBad) \<le> n"
    and "length (fst (filter_possible_answers C n pMask notMask pGood pBad)) = length C"
  using filter_loop_invariant [OF assms, of pMask notMask pGood pBad]
  by (auto simp: surviving_def filter_possible_answers_def)

lemma filter_loop_all_kept:
  assumes "n \<le> length arr" "\<forall>j<n. is_good_fit pMask notMask pGood pBad (arr ! j) \<noteq> 0"
  shows "fold (filter_step pMask notMask pGood pBad) [0..<n] (arr, 0) = (arr, n)"
  using assms
proof (induction n)
  case 0
  show ?case by simp
next
  case (Suc n)
  then have "fold (filter_step pMask notMask pGood pBad) [0..<n] (arr, 0) = (arr, n)"
    by simp
  then have step: "fold (filter_step pMask notMask pGood pBad) [0..<Suc n] (arr, 0)
               = filter_step pMask notMask pGood pBad n (arr, n)"
    by simp
  have "is_good_fit pMask notMask pGood pBad (arr ! n) \<noteq> 0"
    using Suc.prems by simp
  then have "filter_step pMask notMask pGood pBad n (arr, n) = (arr, Suc n)"
    by (simp add: filter_step_def Let_def)
  then show ?case
    unfolding step .
qed

text \<open>
  C5. For candidates of five upper-case letters and a required-letter string of
  upper-case letters, with any mask, positional exclusions and excluded letters:
  \<open>is_good_fit\<close> returns 1 exactly when the four conditions (a) to (d) hold and 0
  otherwise, and the candidates that \<open>filter_possible_answers\<close> keeps are exactly those
  that meet the four conditions, in their original order.
\<close>

theorem candidate_survives_iff:
  "\<forall>w\<in>set C. valid_word w \<Longrightarrow> \<forall>c\<in>set pGood. is_upper c \<Longrightarrow>
   (\<forall>w\<in>set C. (is_good_fit pMask notMask pGood pBad w = 1
                    \<longleftrightarrow> candidate_passes pMask notMask pGood pBad w) \<and>
               (is_good_fit pMask notMask pGood pBad w = 0
                    \<longleftrightarrow> \<not> candidate_passes pMask notMask pGood pBad w)) \<and>
   surviving (filter_possible_answers C (length C) pMask notMask pGood pBad)
     = filter (candidate_passes pMask notMask pGood pBad) C"
proof -
  assume v: "\<forall>w\<in>set C. valid_word w" and g: "\<forall>c\<in>set pGood. is_upper c"
  have one: "is_good_fit pMask notMask pGood pBad w = 1
               \<longleftrightarrow> candidate_passes pMask notMask pGood pBad w" if "w \<in> set C" for w
    using that v g by (simp add: is_good_fit_iff)
  have zero: "is_good_fit pMask notMask pGood pBad w = 0
               \<longleftrightarrow> \<not> candidate_passes pMask notMask pGood pBad w" if "w \<in> set C" for w
    using one [OF that] is_good_fit_cases [of pMask notMask pGood pBad w] by auto
  have "surviving (filter_possible_answers C (length C) pMask notMask pGood pBad)
          = filter (\<lambda>w. is_good_fit pMask notMask pGood pBad w \<noteq> 0) C"
    using surviving_filter(1) [of "length C" C pMask notMask pGood pBad] by simp
  also have "\<dots> = filter (candidate_passes pMask notMask pGood pBad) C"
    using zero by (intro filter_cong) auto
  finally show ?thesis
    using one zero by blast
qed

theorem candidate_survives_iff_witness:
  "candidate_passes ''*RA*E'' (''C**N*'' # replicate 5 ''*****'') ''CRAE'' ''N'' ''TRACE'' \<and>
   \<not> candidate_passes ''*RA*E'' (''C**N*'' # replicate 5 ''*****'') ''CRAE'' ''N'' ''CRANE'' \<and>
   filter (candidate_passes ''*RA*E'' (''C**N*'' # replicate 5 ''*****'') ''CRAE'' ''N'')
     [''CRANE'', ''TRACE'', ''SLATE'', ''BRACE'', ''GRACE''] = [''TRACE'', ''BRACE'', ''GRACE'']"
proof -
  have v: "\<forall>w\<in>set [''CRANE'', ''TRACE'', ''SLATE'', ''BRACE'', ''GRACE'']. valid_word w"
    by (simp add: valid_word_def WORD_SIZE_def is_upper_def)
  have g: "\<forall>c\<in>set ''CRAE''. is_upper c"
    by (simp add: is_upper_def)
  have e1: "is_good_fit ''*RA*E'' (''C**N*'' # replicate 5 ''*****'') ''CRAE'' ''N'' ''TRACE'' = 1"
    by code_simp
  have e2: "is_good_fit ''*RA*E'' (''C**N*'' # replicate 5 ''*****'') ''CRAE'' ''N'' ''CRANE'' = 0"
    by code_simp
  have e3: "surviving (filter_possible_answers [''CRANE'', ''TRACE'', ''SLATE'', ''BRACE'', ''GRACE'']
                (length [''CRANE'', ''TRACE'', ''SLATE'', ''BRACE'', ''GRACE''])
                ''*RA*E'' (''C**N*'' # replicate 5 ''*****'') ''CRAE'' ''N'')
            = [''TRACE'', ''BRACE'', ''GRACE'']"
    by code_simp
  show ?thesis
    using candidate_survives_iff [OF v g, of "''*RA*E''" "''C**N*'' # replicate 5 ''*****''" "''N''"]
      e1 e2 e3 by simp
qed

section \<open>Candidate filter: idempotence\<close>

text \<open>
  C8. Filtering is idempotent: filtering the array and count that a first filtering
  returned, under the same state, returns the same array and the same count.
\<close>

theorem filter_idempotent:
  "n \<le> length C \<Longrightarrow>
   filter_possible_answers
     (fst (filter_possible_answers C n pMask notMask pGood pBad))
     (snd (filter_possible_answers C n pMask notMask pGood pBad)) pMask notMask pGood pBad
   = filter_possible_answers C n pMask notMask pGood pBad"
proof -
  assume n: "n \<le> length C"
  let ?r = "filter_possible_answers C n pMask notMask pGood pBad"
  let ?P = "\<lambda>w. is_good_fit pMask notMask pGood pBad w \<noteq> 0"
  have k: "snd ?r \<le> length (fst ?r)"
    using surviving_filter(2,3) [OF n, of pMask notMask pGood pBad] n by simp
  have "?P (fst ?r ! j)" if "j < snd ?r" for j
  proof -
    have "fst ?r ! j = surviving ?r ! j"
      using that by (simp add: surviving_def)
    moreover have "surviving ?r ! j \<in> set (surviving ?r)"
      using that k by (intro nth_mem) (simp add: surviving_def)
    ultimately show ?thesis
      using surviving_filter(1) [OF n, of pMask notMask pGood pBad] by simp
  qed
  then have "fold (filter_step pMask notMask pGood pBad) [0..<snd ?r] (fst ?r, 0) = (fst ?r, snd ?r)"
    using k by (intro filter_loop_all_kept) auto
  then show ?thesis
    by (simp add: filter_possible_answers_def)
qed

theorem filter_idempotent_witness:
  "filter_possible_answers [''TRACE'', ''BRACE'', ''GRACE'', ''BRACE'', ''GRACE''] 3
     ''*RA*E'' (''C**N*'' # replicate 5 ''*****'') ''CRAE'' ''N''
   = ([''TRACE'', ''BRACE'', ''GRACE'', ''BRACE'', ''GRACE''], 3)"
proof -
  have r: "filter_possible_answers [''CRANE'', ''TRACE'', ''SLATE'', ''BRACE'', ''GRACE''] 5
             ''*RA*E'' (''C**N*'' # replicate 5 ''*****'') ''CRAE'' ''N''
           = ([''TRACE'', ''BRACE'', ''GRACE'', ''BRACE'', ''GRACE''], 3)"
    by code_simp
  have n: "5 \<le> length [''CRANE'', ''TRACE'', ''SLATE'', ''BRACE'', ''GRACE'']"
    by simp
  show ?thesis
    using filter_idempotent [OF n, of "''*RA*E''" "''C**N*'' # replicate 5 ''*****''" "''CRAE''" "''N''"]
    unfolding r by simp
qed

section \<open>Feedback pattern: the evaluator refines the two-pass definition\<close>

lemma zip_take_Suc:
  assumes "n < length g" "n < length a"
  shows "take (Suc n) (zip g a) = take n (zip g a) @ [(g ! n, a ! n)]"
  using assms by (simp add: take_Suc_conv_app_nth)

lemma green_pass:
  assumes "length g = WORD_SIZE" "length a = WORD_SIZE" "\<forall>c\<in>set a. is_upper c" "n \<le> WORD_SIZE"
  shows "\<exists>rp cnt.
           fold (green_step g a) [0..<n] (replicate WORD_SIZE (CHR ''B''), replicate 26 0) = (rp, cnt) \<and>
           length rp = WORD_SIZE \<and>
           (\<forall>i<WORD_SIZE. rp ! i = (if i < n \<and> g ! i = a ! i then CHR ''G'' else CHR ''B'')) \<and>
           length cnt = 26 \<and>
           (\<forall>d. is_upper d \<longrightarrow>
              cnt ! letter_index d =
                int (count_list (map snd (filter (\<lambda>(x, y). x \<noteq> y) (take n (zip g a)))) d))"
  using assms(4)
proof (induction n)
  case 0
  show ?case by (simp add: letter_index_less)
next
  case (Suc n)
  then obtain rp cnt where
    run: "fold (green_step g a) [0..<n] (replicate WORD_SIZE (CHR ''B''), replicate 26 0) = (rp, cnt)"
    and lrp: "length rp = WORD_SIZE"
    and rp: "\<forall>i<WORD_SIZE. rp ! i = (if i < n \<and> g ! i = a ! i then CHR ''G'' else CHR ''B'')"
    and lcnt: "length cnt = 26"
    and cnt: "\<forall>d. is_upper d \<longrightarrow>
              cnt ! letter_index d =
                int (count_list (map snd (filter (\<lambda>(x, y). x \<noteq> y) (take n (zip g a)))) d)"
    by auto
  have n: "n < WORD_SIZE" using Suc.prems by simp
  have step: "fold (green_step g a) [0..<Suc n] (replicate WORD_SIZE (CHR ''B''), replicate 26 0)
                = green_step g a n (rp, cnt)"
    using run by simp
  have tk: "take (Suc n) (zip g a) = take n (zip g a) @ [(g ! n, a ! n)]"
    using n assms(1,2) by (simp add: zip_take_Suc)
  have an: "is_upper (a ! n)"
    using n assms(2,3) by simp
  show ?case
    unfolding step
  proof (cases "g ! n = a ! n")
    case True
    have "\<forall>i<WORD_SIZE. rp[n := CHR ''G''] ! i
            = (if i < Suc n \<and> g ! i = a ! i then CHR ''G'' else CHR ''B'')"
      using rp lrp n True by (auto simp: nth_list_update less_Suc_eq)
    then show "\<exists>rp' cnt'. green_step g a n (rp, cnt) = (rp', cnt') \<and>
           length rp' = WORD_SIZE \<and>
           (\<forall>i<WORD_SIZE. rp' ! i = (if i < Suc n \<and> g ! i = a ! i then CHR ''G'' else CHR ''B'')) \<and>
           length cnt' = 26 \<and>
           (\<forall>d. is_upper d \<longrightarrow>
              cnt' ! letter_index d =
                int (count_list (map snd (filter (\<lambda>(x, y). x \<noteq> y) (take (Suc n) (zip g a)))) d))"
      using True lrp lcnt cnt by (simp add: green_step_def tk)
  next
    case False
    have "\<forall>i<WORD_SIZE. rp ! i
            = (if i < Suc n \<and> g ! i = a ! i then CHR ''G'' else CHR ''B'')"
      using rp False by (auto simp: less_Suc_eq)
    moreover have "\<forall>d. is_upper d \<longrightarrow>
              table_incr cnt (a ! n) ! letter_index d =
                int (count_list (map snd (filter (\<lambda>(x, y). x \<noteq> y) (take (Suc n) (zip g a)))) d)"
      using False cnt lcnt an by (simp add: tk table_incr_nth)
    ultimately show "\<exists>rp' cnt'. green_step g a n (rp, cnt) = (rp', cnt') \<and>
           length rp' = WORD_SIZE \<and>
           (\<forall>i<WORD_SIZE. rp' ! i = (if i < Suc n \<and> g ! i = a ! i then CHR ''G'' else CHR ''B'')) \<and>
           length cnt' = 26 \<and>
           (\<forall>d. is_upper d \<longrightarrow>
              cnt' ! letter_index d =
                int (count_list (map snd (filter (\<lambda>(x, y). x \<noteq> y) (take (Suc n) (zip g a)))) d))"
      using False lrp lcnt by (simp add: green_step_def)
  qed
qed


lemma length_spec_pass2 [simp]: "length (spec_pass2 zs remaining) = length zs"
  by (induction zs arbitrary: remaining) auto

lemma yellow_pass:
  assumes g: "length g = WORD_SIZE" "\<forall>c\<in>set g. is_upper c" and a: "length a = WORD_SIZE"
    and k: "k \<le> WORD_SIZE"
  shows "length rp = WORD_SIZE \<Longrightarrow> length cnt = 26 \<Longrightarrow>
         \<forall>d. is_upper d \<longrightarrow> cnt ! letter_index d = int (remaining d) \<Longrightarrow>
         \<forall>i<WORD_SIZE. k \<le> i \<longrightarrow> rp ! i = (if g ! i = a ! i then CHR ''G'' else CHR ''B'') \<Longrightarrow>
         fst (fold (yellow_step g) [k..<WORD_SIZE] (rp, cnt))
           = take k rp @ spec_pass2 (drop k (zip g a)) remaining"
  using k
proof (induction k arbitrary: rp cnt remaining rule: inc_induct)
  case base
  then show ?case
    using g(1) a by simp
next
  case (step k)
  have gk: "is_upper (g ! k)"
    using step.hyps(2) g by simp
  have dk: "drop k (zip g a) = (g ! k, a ! k) # drop (Suc k) (zip g a)"
    using step.hyps(2) g(1) a by (simp add: Cons_nth_drop_Suc [symmetric])
  have unfold: "fold (yellow_step g) [k..<WORD_SIZE] (rp, cnt)
                  = fold (yellow_step g) [Suc k..<WORD_SIZE] (yellow_step g k (rp, cnt))"
    using step.hyps(2) by (simp add: upt_conv_Cons)
  have rpk: "rp ! k = (if g ! k = a ! k then CHR ''G'' else CHR ''B'')"
    using step.prems(4) step.hyps(2) by simp
  have tk: "take (Suc k) rp = take k rp @ [rp ! k]"
    using step.hyps(2) step.prems(1) by (simp add: take_Suc_conv_app_nth)
  have later: "\<forall>i<WORD_SIZE. Suc k \<le> i \<longrightarrow> rp ! i = (if g ! i = a ! i then CHR ''G'' else CHR ''B'')"
    using step.prems(4) by simp
  consider (green) "g ! k = a ! k"
    | (yellow) "g ! k \<noteq> a ! k" "0 < remaining (g ! k)"
    | (black) "g ! k \<noteq> a ! k" "remaining (g ! k) = 0"
    by auto
  then show ?case
  proof cases
    case green
    then have "yellow_step g k (rp, cnt) = (rp, cnt)"
      using rpk by (simp add: yellow_step_def)
    then show ?thesis
      unfolding unfold
      using step.IH [OF step.prems(1,2,3) later] green rpk tk dk by simp
  next
    case yellow
    let ?rp = "rp[k := CHR ''Y'']"
    let ?cnt = "table_decr cnt (g ! k)"
    let ?rem = "remaining(g ! k := remaining (g ! k) - 1)"
    have "cnt ! letter_index (g ! k) > 0"
      using yellow(2) step.prems(3) gk by simp
    then have ys: "yellow_step g k (rp, cnt) = (?rp, ?cnt)"
      using rpk yellow(1) by (simp add: yellow_step_def)
    have c: "\<forall>d. is_upper d \<longrightarrow> ?cnt ! letter_index d = int (?rem d)"
      using step.prems(2,3) gk yellow(2) by (auto simp: table_decr_nth)
    have l: "\<forall>i<WORD_SIZE. Suc k \<le> i \<longrightarrow> ?rp ! i = (if g ! i = a ! i then CHR ''G'' else CHR ''B'')"
      using later by simp
    have t: "take (Suc k) ?rp = take k rp @ [CHR ''Y'']"
      using step.hyps(2) step.prems(1) by (simp add: take_Suc_conv_app_nth)
    have "fst (fold (yellow_step g) [Suc k..<WORD_SIZE] (?rp, ?cnt))
            = take (Suc k) ?rp @ spec_pass2 (drop (Suc k) (zip g a)) ?rem"
      using step.prems(1,2) by (intro step.IH [OF _ _ c l]) simp_all
    then show ?thesis
      unfolding unfold ys
      using yellow t dk by simp
  next
    case black
    have "cnt ! letter_index (g ! k) = 0"
      using black(2) step.prems(3) gk by simp
    then have "yellow_step g k (rp, cnt) = (rp, cnt)"
      by (simp add: yellow_step_def)
    then show ?thesis
      unfolding unfold
      using step.IH [OF step.prems(1,2,3) later] black rpk tk dk by simp
  qed
qed

lemma get_feedback_pattern_spec:
  assumes "valid_word guess" "valid_word answer"
  shows "get_feedback_pattern guess answer = spec_feedback guess answer"
proof -
  have g: "length guess = WORD_SIZE" "\<forall>c\<in>set guess. is_upper c"
    and a: "length answer = WORD_SIZE" "\<forall>c\<in>set answer. is_upper c"
    using assms by (simp_all add: valid_word_def)
  obtain rp cnt where
    run: "fold (green_step guess answer) [0..<WORD_SIZE]
            (replicate WORD_SIZE (CHR ''B''), replicate 26 0) = (rp, cnt)"
    and lrp: "length rp = WORD_SIZE"
    and rp: "\<forall>i<WORD_SIZE. rp ! i = (if i < WORD_SIZE \<and> guess ! i = answer ! i then CHR ''G'' else CHR ''B'')"
    and lcnt: "length cnt = 26"
    and cnt: "\<forall>d. is_upper d \<longrightarrow>
              cnt ! letter_index d =
                int (count_list (map snd (filter (\<lambda>(x, y). x \<noteq> y) (take WORD_SIZE (zip guess answer)))) d)"
    using green_pass [OF g(1) a(1) a(2) order_refl] by blast
  have cnt': "\<forall>d. is_upper d \<longrightarrow> cnt ! letter_index d = int (remaining_letters guess answer d)"
    using cnt g(1) a(1) by (simp add: remaining_letters_def)
  have rp': "\<forall>i<WORD_SIZE. 0 \<le> i \<longrightarrow> rp ! i = (if guess ! i = answer ! i then CHR ''G'' else CHR ''B'')"
    using rp by simp
  have "fst (fold (yellow_step guess) [0..<WORD_SIZE] (rp, cnt))
          = take 0 rp @ spec_pass2 (drop 0 (zip guess answer)) (remaining_letters guess answer)"
    by (rule yellow_pass [OF g a(1) _ lrp lcnt cnt' rp']) simp
  then show ?thesis
    by (simp add: get_feedback_pattern_def run spec_feedback_def)
qed

lemma spec_pass2_same: "spec_pass2 (zip w w) remaining = replicate (length w) (CHR ''G'')"
  by (induction w) auto

text \<open>
  C4. For words of five upper-case letters, \<open>get_feedback_pattern\<close> returns exactly the
  pattern of the two-pass reference definition \<open>spec_feedback\<close>, and the pattern of a
  word against itself is all Green.
\<close>

theorem feedback_is_two_pass_reference:
  "valid_word guess \<Longrightarrow> valid_word answer \<Longrightarrow>
   get_feedback_pattern guess answer = spec_feedback guess answer \<and>
   get_feedback_pattern guess guess = replicate WORD_SIZE (CHR ''G'')"
proof -
  assume v: "valid_word guess" "valid_word answer"
  have "get_feedback_pattern guess guess = spec_feedback guess guess"
    by (rule get_feedback_pattern_spec [OF v(1) v(1)])
  also have "\<dots> = replicate WORD_SIZE (CHR ''G'')"
    using v(1) by (simp add: spec_feedback_def spec_pass2_same valid_word_def)
  finally have "get_feedback_pattern guess guess = replicate WORD_SIZE (CHR ''G'')" .
  then show ?thesis
    using get_feedback_pattern_spec [OF v] by simp
qed


theorem feedback_is_two_pass_reference_witness:
  "get_feedback_pattern ''ABBEY'' ''BOBBY'' = ''BYGBG'' \<and>
   get_feedback_pattern ''ABBEY'' ''ABBEY'' = ''GGGGG''"
proof -
  have v: "valid_word ''ABBEY''" "valid_word ''BOBBY''"
    by (simp_all add: valid_word_def WORD_SIZE_def is_upper_def)
  have s: "spec_feedback ''ABBEY'' ''BOBBY'' = ''BYGBG''"
    by (simp add: spec_feedback_def remaining_letters_def)
  show ?thesis
    using feedback_is_two_pass_reference [OF v] s by (simp add: WORD_SIZE_def eval_nat_numeral)
qed

section \<open>Feedback pattern: Yellow marks are assigned from the left\<close>

lemma no_yellow_when_zero:
  "remaining L = 0 \<Longrightarrow> j < length zs \<Longrightarrow> fst (zs ! j) = L \<Longrightarrow>
   spec_pass2 zs remaining ! j \<noteq> CHR ''Y''"
proof (induction zs arbitrary: remaining j)
  case Nil
  then show ?case by simp
next
  case (Cons z zs)
  obtain x y where z: "z = (x, y)" by (cases z)
  show ?case
  proof (cases j)
    case 0
    then show ?thesis
      using Cons.prems z by auto
  next
    case (Suc j')
    have j': "j' < length zs" "fst (zs ! j') = L"
      using Cons.prems Suc by simp_all
    have ih: "spec_pass2 zs r ! j' \<noteq> CHR ''Y''" if "r L = 0" for r
      using Cons.IH [of r j', OF that j'] .
    have same: "spec_pass2 zs remaining ! j' \<noteq> CHR ''Y''"
      using Cons.prems(1) by (rule ih)
    have "(remaining(x := remaining x - 1)) L = 0"
      using Cons.prems(1) by auto
    then have less: "spec_pass2 zs (remaining(x := remaining x - 1)) ! j' \<noteq> CHR ''Y''"
      by (rule ih)
    show ?thesis
      using same less z Suc by simp
  qed
qed

lemma black_then_no_yellow:
  "i < j \<Longrightarrow> j < length zs \<Longrightarrow> fst (zs ! i) = fst (zs ! j) \<Longrightarrow>
   spec_pass2 zs remaining ! i = CHR ''B'' \<Longrightarrow> spec_pass2 zs remaining ! j \<noteq> CHR ''Y''"
proof (induction zs arbitrary: remaining i j)
  case Nil
  then show ?case by simp
next
  case (Cons z zs)
  obtain x y where z: "z = (x, y)" by (cases z)
  obtain j' where j: "j = Suc j'" "j' < length zs"
    using Cons.prems(1,2) by (cases j) auto
  show ?case
  proof (cases i)
    case 0
    have x: "fst (zs ! j') = x"
      using Cons.prems(3) 0 j z by simp
    have "x \<noteq> y \<and> remaining x = 0"
      using Cons.prems(4) 0 z by (auto split: if_splits)
    then show ?thesis
      using no_yellow_when_zero [of remaining x j' zs] x j z by simp
  next
    case (Suc i')
    have p: "i' < j'" "fst (zs ! i') = fst (zs ! j')"
      using Cons.prems(1,3) Suc j by simp_all
    have "spec_pass2 zs r ! j' \<noteq> CHR ''Y''" if "spec_pass2 zs r ! i' = CHR ''B''" for r
      using Cons.IH [OF p(1) j(2) p(2) that] .
    then show ?thesis
      using Cons.prems(4) z Suc j by (auto split: if_splits)
  qed
qed

text \<open>
  C9. In an evaluator-produced pattern, for two positions that hold the same guessed
  letter, one marked Yellow and the other Black, the Yellow one is strictly to the left:
  Black followed by Yellow for the same letter does not occur.
\<close>

theorem yellow_left_of_black:
  "valid_word guess \<Longrightarrow> valid_word answer \<Longrightarrow>
   \<forall>i<WORD_SIZE. \<forall>j<WORD_SIZE.
     guess ! i = guess ! j \<and>
     get_feedback_pattern guess answer ! i = CHR ''Y'' \<and>
     get_feedback_pattern guess answer ! j = CHR ''B'' \<longrightarrow> i < j"
proof (intro allI impI)
  fix i j
  assume v: "valid_word guess" "valid_word answer"
    and i: "i < WORD_SIZE" and j: "j < WORD_SIZE"
    and h: "guess ! i = guess ! j \<and>
            get_feedback_pattern guess answer ! i = CHR ''Y'' \<and>
            get_feedback_pattern guess answer ! j = CHR ''B''"
  let ?zs = "zip guess answer"
  let ?rem = "remaining_letters guess answer"
  have lg: "length guess = WORD_SIZE" and la: "length answer = WORD_SIZE"
    using v by (simp_all add: valid_word_def)
  have p: "get_feedback_pattern guess answer = spec_pass2 ?zs ?rem"
    using get_feedback_pattern_spec [OF v] by (simp add: spec_feedback_def)
  show "i < j"
  proof (rule ccontr)
    assume "\<not> i < j"
    moreover have "i \<noteq> j" using h by auto
    ultimately have "j < i" by simp
    then have "spec_pass2 ?zs ?rem ! i \<noteq> CHR ''Y''"
    proof (rule black_then_no_yellow)
      show "i < length ?zs" using i lg la by simp
      show "fst (?zs ! j) = fst (?zs ! i)" using h i j lg la by simp
      show "spec_pass2 ?zs ?rem ! j = CHR ''B''" using h p by simp
    qed
    then show False
      using h p by simp
  qed
qed

theorem yellow_left_of_black_witness:
  "get_feedback_pattern ''EERIE'' ''ELDER'' = ''GYYBB'' \<and> (1::nat) < 4"
proof -
  have v: "valid_word ''EERIE''" "valid_word ''ELDER''"
    by (simp_all add: valid_word_def WORD_SIZE_def is_upper_def)
  have p: "get_feedback_pattern ''EERIE'' ''ELDER'' = ''GYYBB''"
    by code_simp
  have "''EERIE'' ! 1 = ''EERIE'' ! 4 \<and>
        get_feedback_pattern ''EERIE'' ''ELDER'' ! 1 = CHR ''Y'' \<and>
        get_feedback_pattern ''EERIE'' ''ELDER'' ! 4 = CHR ''B''"
    unfolding p by simp
  then have "(1::nat) < 4"
    using yellow_left_of_black [OF v] by (simp add: WORD_SIZE_def)
  then show ?thesis
    using p by simp
qed

end
